theory Spec2Isabelle
  imports Main "HOL-Library.Word"
begin

unbundle bit_operations_syntax

section \<open>The connections registry of \<^verbatim>\<open>app.py\<close>\<close>

text \<open>
  The module keeps one global dictionary, \<^verbatim>\<open>connections = {}\<close>, from a room identifier
  to the list of WebSocket objects of that room. A WebSocket object is compared by identity
  (\<^verbatim>\<open>connection != websocket\<close>), so it is modelled by a number that names the object.
  The dictionary is a map; the list keeps its order, since the broadcast walks it in order.
\<close>

type_synonym room_id = string
type_synonym websocket = nat
type_synonym registry = "room_id \<rightharpoonup> websocket list"

text \<open>
  The exceptions that matter to \<^verbatim>\<open>websocket_endpoint\<close>: the two classes its
  \<^verbatim>\<open>except\<close> clause names (\<open>ConnectionError\<close> stands for the class and its
  subclasses), the two that the dictionary lookup and \<^verbatim>\<open>list.remove\<close> raise, and any
  other exception.
\<close>

datatype exn = WebSocketDisconnect | ConnectionError | KeyError | ValueError | OtherException

subsection \<open>Join: lines 146 to 148\<close>

text \<open>
  \<^verbatim>\<open>
  if room_id not in connections:
      connections[room_id] = []
  connections[room_id].append(websocket)
  \<close>
\<close>

definition join :: "registry \<Rightarrow> room_id \<Rightarrow> websocket \<Rightarrow> registry" where
  "join connections room_id ws =
     (let connections1 =
            (if connections room_id = None then connections(room_id \<mapsto> []) else connections)
      in case connections1 room_id of
           Some cs \<Rightarrow> connections1(room_id \<mapsto> cs @ [ws])
         | None \<Rightarrow> connections1)"

subsection \<open>Leave: line 159\<close>

text \<open>
  \<^verbatim>\<open>connections[room_id].remove(websocket)\<close>: the lookup raises \<open>KeyError\<close> when the
  room is not a key, \<^verbatim>\<open>list.remove\<close> raises \<open>ValueError\<close> when the object is not in
  the list, and otherwise the first occurrence is removed. The result is the registry after
  the statement and the exception it raised, if any.
\<close>

definition leave :: "registry \<Rightarrow> room_id \<Rightarrow> websocket \<Rightarrow> registry \<times> exn option" where
  "leave connections room_id ws =
     (case connections room_id of
        None \<Rightarrow> (connections, Some KeyError)
      | Some cs \<Rightarrow>
          if ws \<in> set cs then (connections(room_id \<mapsto> remove1 ws cs), None)
          else (connections, Some ValueError))"

subsection \<open>Broadcast: lines 153 to 155\<close>

text \<open>
  \<^verbatim>\<open>
  for connection in connections[room_id]:
      if connection != websocket:
          await connection.send_text(data)
  \<close>
  Whether a send succeeds is the peer's business: \<open>send_text c data\<close> is \<open>None\<close> when
  the call returns and \<open>Some e\<close> when it raises \<open>e\<close>. The loop is modelled with the
  list it walks; its result is the calls of \<^verbatim>\<open>send_text\<close> it made, in order, each with
  its outcome, and the exception that ended it, if any. An exception leaves the
  \<^verbatim>\<open>for\<close> loop at once: there is no handler inside it. This is the pass as it runs
  when no other session joins or leaves while it waits in a send; the source walks the
  list object itself, and what the walk does when the list changes under it is the matter
  of \<open>iterate\<close> below.
\<close>

type_synonym sender = "websocket \<Rightarrow> string \<Rightarrow> exn option"
type_synonym call = "websocket \<times> string \<times> exn option"

fun broadcast :: "sender \<Rightarrow> websocket \<Rightarrow> string \<Rightarrow> websocket list \<Rightarrow> call list \<times> exn option" where
  "broadcast send_text ws data [] = ([], None)"
| "broadcast send_text ws data (connection # rest) =
     (if connection \<noteq> ws then
        (case send_text connection data of
           Some e \<Rightarrow> ([(connection, data, Some e)], Some e)
         | None \<Rightarrow>
             (case broadcast send_text ws data rest of
                (calls, r) \<Rightarrow> ((connection, data, None) # calls, r)))
      else broadcast send_text ws data rest)"

text \<open>The payloads a channel was sent successfully, in order.\<close>

definition received :: "call list \<Rightarrow> websocket \<Rightarrow> string list" where
  "received calls c = map (\<lambda>(c', data, r). data) (filter (\<lambda>(c', data, r). c' = c \<and> r = None) calls)"

text \<open>The channels on which \<^verbatim>\<open>send_text\<close> was called at all.\<close>

definition attempted :: "call list \<Rightarrow> websocket set" where
  "attempted calls = fst ` set calls"

subsection \<open>The relay loop: lines 151 to 155\<close>

text \<open>
  \<^verbatim>\<open>
  while True:
      data = await websocket.receive_text()
      for connection in connections[room_id]: ...
  \<close>
  What the client does is the list of outcomes of the successive calls of
  \<^verbatim>\<open>receive_text\<close>: a text payload, or an exception (\<open>WebSocketDisconnect\<close> for a
  close, anything else for a transport or protocol error). The loop has no exit of its own:
  it ends with an exception (\<open>Some e\<close>), or it waits in \<^verbatim>\<open>receive_text\<close> for a
  payload that never comes (\<open>None\<close>, when the list is used up). The lookup
  \<^verbatim>\<open>connections[room_id]\<close> raises \<open>KeyError\<close> on a room that is not a key. One session
  is followed on its own here, so the registry stays as it is while the loop runs: the loop
  itself never writes to it.
\<close>

datatype recv = Text string | Raises exn

fun relay_loop :: "sender \<Rightarrow> registry \<Rightarrow> room_id \<Rightarrow> websocket \<Rightarrow> recv list \<Rightarrow> call list \<times> exn option" where
  "relay_loop send_text connections room_id ws [] = ([], None)"
| "relay_loop send_text connections room_id ws (Raises e # inbox) = ([], Some e)"
| "relay_loop send_text connections room_id ws (Text data # inbox) =
     (case connections room_id of
        None \<Rightarrow> ([], Some KeyError)
      | Some cs \<Rightarrow>
          (case broadcast send_text ws data cs of
             (calls, Some e) \<Rightarrow> (calls, Some e)
           | (calls, None) \<Rightarrow>
               (case relay_loop send_text connections room_id ws inbox of
                  (calls', r) \<Rightarrow> (calls @ calls', r))))"

subsection \<open>The session: \<^verbatim>\<open>websocket_endpoint\<close>, lines 131 to 159\<close>

text \<open>
  The handshake \<^verbatim>\<open>await websocket.accept()\<close> and the join stand before the
  \<^verbatim>\<open>try\<close>: an exception of the handshake (\<open>accept = Some e\<close>) ends the call with
  the registry untouched. The \<^verbatim>\<open>except\<close> clause catches \<open>WebSocketDisconnect\<close> and
  \<open>ConnectionError\<close> only; the \<^verbatim>\<open>finally\<close> clause runs the leave for every exception,
  and an exception of the leave itself replaces the one in flight.
\<close>

datatype outcome = Returned | Propagated exn | Waiting

definition caught :: "exn \<Rightarrow> bool" where
  "caught e = (e = WebSocketDisconnect \<or> e = ConnectionError)"

definition cleanup :: "registry \<Rightarrow> room_id \<Rightarrow> websocket \<Rightarrow> exn \<Rightarrow> registry \<times> outcome" where
  "cleanup connections room_id ws e =
     (case leave connections room_id ws of
        (connections', Some e') \<Rightarrow> (connections', Propagated e')
      | (connections', None) \<Rightarrow> (connections', if caught e then Returned else Propagated e))"

definition websocket_endpoint ::
  "sender \<Rightarrow> registry \<Rightarrow> websocket \<Rightarrow> room_id \<Rightarrow> exn option \<Rightarrow> recv list \<Rightarrow>
     registry \<times> call list \<times> outcome" where
  "websocket_endpoint send_text connections ws room_id accept inbox =
     (case accept of
        Some e \<Rightarrow> (connections, [], Propagated e)
      | None \<Rightarrow>
          (let connections1 = join connections room_id ws
           in case relay_loop send_text connections1 room_id ws inbox of
                (calls, None) \<Rightarrow> (connections1, calls, Waiting)
              | (calls, Some e) \<Rightarrow>
                  (case cleanup connections1 room_id ws e of
                     (connections2, out) \<Rightarrow> (connections2, calls, out))))"

subsection \<open>Several sessions on one registry\<close>

text \<open>
  The sessions of one process share \<^verbatim>\<open>connections\<close>. Each call of
  \<^verbatim>\<open>websocket_endpoint\<close> gets a WebSocket object of its own from the framework, joins
  once before its loop and leaves once in its \<^verbatim>\<open>finally\<close> clause. A run of the process
  is a list of events: a client connects (handshake and join), a session receives a payload
  (one pass of the loop body), the \<^verbatim>\<open>receive_text\<close> of a session raises (cleanup).
  \<open>sessions\<close> records the room of every session started so far and whether it is still
  in its loop; an event that no session can produce (a WebSocket object used twice, a
  payload or an exception for a session that does not run) has no successor state.
  The joins and leaves are single steps, as in the source, where no \<^verbatim>\<open>await\<close> stands
  between the handshake and the append, nor between an exception and the removal. In this
  first reading one pass of the loop body is a single step as well, with the outcome of
  every send fixed by \<open>send_text\<close>; the passes are taken apart at their awaits in the
  next subsection.
\<close>

datatype event = Connect websocket room_id | Message websocket string | Disconnect websocket exn

record system =
  conns :: registry
  sessions :: "websocket \<rightharpoonup> room_id \<times> bool"
  sent :: "call list"

definition start :: system where
  "start = \<lparr>conns = Map.empty, sessions = Map.empty, sent = []\<rparr>"

definition close_session :: "system \<Rightarrow> websocket \<Rightarrow> room_id \<Rightarrow> exn \<Rightarrow> system" where
  "close_session s ws room_id e =
     s\<lparr>conns := fst (cleanup (conns s) room_id ws e),
       sessions := (sessions s)(ws \<mapsto> (room_id, False))\<rparr>"

fun step :: "sender \<Rightarrow> system \<Rightarrow> event \<Rightarrow> system option" where
  "step send_text s (Connect ws room_id) =
     (if sessions s ws = None
      then Some (s\<lparr>conns := join (conns s) room_id ws,
                   sessions := (sessions s)(ws \<mapsto> (room_id, True))\<rparr>)
      else None)"
| "step send_text s (Message ws data) =
     (case sessions s ws of
        Some (room_id, True) \<Rightarrow>
          (case relay_loop send_text (conns s) room_id ws [Text data] of
             (calls, None) \<Rightarrow> Some (s\<lparr>sent := sent s @ calls\<rparr>)
           | (calls, Some e) \<Rightarrow> Some (close_session (s\<lparr>sent := sent s @ calls\<rparr>) ws room_id e))
      | _ \<Rightarrow> None)"
| "step send_text s (Disconnect ws e) =
     (case sessions s ws of
        Some (room_id, True) \<Rightarrow> Some (close_session s ws room_id e)
      | _ \<Rightarrow> None)"

fun run :: "sender \<Rightarrow> system \<Rightarrow> event list \<Rightarrow> system option" where
  "run send_text s [] = Some s"
| "run send_text s (ev # evs) =
     (case step send_text s ev of None \<Rightarrow> None | Some s' \<Rightarrow> run send_text s' evs)"

text \<open>
  What ties the registry to the sessions, and holds in every state of a run: the
  collection of a room is free of duplicates and holds sessions of that room that are
  still in their loop, and every session in its loop is in the collection of its room.
\<close>

definition consistent :: "system \<Rightarrow> bool" where
  "consistent s \<longleftrightarrow>
     (\<forall>r cs. conns s r = Some cs \<longrightarrow> distinct cs \<and> (\<forall>c \<in> set cs. sessions s c = Some (r, True))) \<and>
     (\<forall>c r. sessions s c = Some (r, True) \<longrightarrow> (\<exists>cs. conns s r = Some cs \<and> c \<in> set cs))"

subsection \<open>The loop body between its awaits\<close>

text \<open>
  \<^verbatim>\<open>
  data = await websocket.receive_text()
  for connection in connections[room_id]:
      if connection != websocket:
          await connection.send_text(data)
  \<close>
  A session gives way to the others at its awaits only, and \<^verbatim>\<open>send_text\<close> is awaited
  inside the \<^verbatim>\<open>for\<close> loop: while one send is under way, other sessions may join and
  leave. The loop walks the list object of the room itself, not a copy: Python's list
  iterator keeps an index, reads the entry at that index from the list as it is at that
  moment, and stops once the index is no longer below the length. A session is therefore
  in one of three places: waiting in \<^verbatim>\<open>receive_text\<close>; waiting in the
  \<^verbatim>\<open>send_text\<close> of a payload on a connection, with the index the iterator reads next;
  or ended, with the way \<^verbatim>\<open>websocket_endpoint\<close> was left.
\<close>

datatype phase = Receiving | Sending string nat websocket | Ended outcome

fun live :: "phase \<Rightarrow> bool" where
  "live (Ended out) = False"
| "live p = True"

record server =
  rooms :: registry
  tasks :: "websocket \<rightharpoonup> room_id \<times> phase"
  wire :: "call list"

definition idle :: server where
  "idle = \<lparr>rooms = Map.empty, tasks = Map.empty, wire = []\<rparr>"

text \<open>
  \<open>seek ws cs i\<close> is the iterator on the entries \<open>cs\<close> that lie at index \<open>i\<close> and
  beyond: it passes over the session's own object and stops at the first other connection,
  with the index behind it. \<open>iterate\<close> runs the \<^verbatim>\<open>for\<close> loop of a session from index
  \<open>i\<close> up to its next await: the \<^verbatim>\<open>send_text\<close> on the connection found, or, when
  the list is used up, the \<^verbatim>\<open>receive_text\<close> of the next pass. The list is read
  through the key of the room, which no statement of the source removes.
\<close>

fun seek :: "websocket \<Rightarrow> websocket list \<Rightarrow> nat \<Rightarrow> (websocket \<times> nat) option" where
  "seek ws [] i = None"
| "seek ws (connection # rest) i =
     (if connection \<noteq> ws then Some (connection, Suc i) else seek ws rest (Suc i))"

definition iterate :: "server \<Rightarrow> websocket \<Rightarrow> room_id \<Rightarrow> string \<Rightarrow> nat \<Rightarrow> server" where
  "iterate s ws room_id data i =
     (case seek ws (drop i (case rooms s room_id of None \<Rightarrow> [] | Some cs \<Rightarrow> cs)) i of
        None \<Rightarrow> s\<lparr>tasks := (tasks s)(ws \<mapsto> (room_id, Receiving))\<rparr>
      | Some (connection, j) \<Rightarrow>
          s\<lparr>tasks := (tasks s)(ws \<mapsto> (room_id, Sending data j connection))\<rparr>)"

text \<open>
  An exception leaves both loops and reaches the \<^verbatim>\<open>except\<close> and \<^verbatim>\<open>finally\<close>
  clauses with no await on the way.
\<close>

definition finish :: "server \<Rightarrow> websocket \<Rightarrow> room_id \<Rightarrow> exn \<Rightarrow> server" where
  "finish s ws room_id e =
     (case cleanup (rooms s) room_id ws e of
        (connections', out) \<Rightarrow>
          s\<lparr>rooms := connections', tasks := (tasks s)(ws \<mapsto> (room_id, Ended out))\<rparr>)"

text \<open>
  What happens to the process, one event at a time: a handshake completes (the join
  follows at once); the \<^verbatim>\<open>receive_text\<close> of a session returns a payload or raises;
  the \<^verbatim>\<open>send_text\<close> that a session awaits returns or raises. Whether a send returns
  or raises is part of the event, so it may differ from one call to the next on the same
  connection. \<open>wire\<close> records the calls of \<^verbatim>\<open>send_text\<close> that have come back, with
  their outcome. An event that does not fit the place its session is in has no successor.
\<close>

datatype action =
    Accept websocket room_id
  | Receive websocket string
  | ReceiveRaises websocket exn
  | SendReturns websocket
  | SendRaises websocket exn

fun advance :: "server \<Rightarrow> action \<Rightarrow> server option" where
  "advance s (Accept ws room_id) =
     (if tasks s ws = None
      then Some (s\<lparr>rooms := join (rooms s) room_id ws,
                   tasks := (tasks s)(ws \<mapsto> (room_id, Receiving))\<rparr>)
      else None)"
| "advance s (Receive ws data) =
     (case tasks s ws of
        Some (room_id, Receiving) \<Rightarrow>
          (case rooms s room_id of
             None \<Rightarrow> Some (finish s ws room_id KeyError)
           | Some cs \<Rightarrow> Some (iterate s ws room_id data 0))
      | _ \<Rightarrow> None)"
| "advance s (ReceiveRaises ws e) =
     (case tasks s ws of
        Some (room_id, Receiving) \<Rightarrow> Some (finish s ws room_id e)
      | _ \<Rightarrow> None)"
| "advance s (SendReturns ws) =
     (case tasks s ws of
        Some (room_id, Sending data i connection) \<Rightarrow>
          Some (iterate (s\<lparr>wire := wire s @ [(connection, data, None)]\<rparr>) ws room_id data i)
      | _ \<Rightarrow> None)"
| "advance s (SendRaises ws e) =
     (case tasks s ws of
        Some (room_id, Sending data i connection) \<Rightarrow>
          Some (finish (s\<lparr>wire := wire s @ [(connection, data, Some e)]\<rparr>) ws room_id e)
      | _ \<Rightarrow> None)"

fun execute :: "server \<Rightarrow> action list \<Rightarrow> server option" where
  "execute s [] = Some s"
| "execute s (a # as) = (case advance s a of None \<Rightarrow> None | Some s' \<Rightarrow> execute s' as)"

text \<open>
  Seen without the place each session is in, a state of the process is a state of the
  first reading: the registry, the sessions with whether each is still running, and the
  calls made.
\<close>

definition abstract :: "server \<Rightarrow> system" where
  "abstract s =
     \<lparr>conns = rooms s,
      sessions = (\<lambda>c. case tasks s c of None \<Rightarrow> None | Some (r, p) \<Rightarrow> Some (r, live p)),
      sent = wire s\<rparr>"

section \<open>The pages: \<^verbatim>\<open>generate_room\<close>, \<^verbatim>\<open>share_screen\<close>, \<^verbatim>\<open>view_screen\<close>\<close>

text \<open>
  Of a request the handlers read the scheme of the URL and the \<open>host\<close> header. A
  \<^verbatim>\<open>TemplateResponse\<close> is the name of its template and its context dictionary, kept
  as the list of its items in the order written. The handlers are functions of a module
  whose global state is \<^verbatim>\<open>connections\<close>: each takes the registry and returns it with
  its response.
\<close>

record request =
  url_scheme :: string
  headers :: "string \<rightharpoonup> string"

datatype context_item = Str string | Req request

record template_response =
  template_name :: string
  context_dict :: "(string \<times> context_item) list"

text \<open>
  Modelled from the spec: \<^verbatim>\<open>str\<close> of a UUID, which is Python's standard library and not
  part of the repository. The value drawn by \<^verbatim>\<open>uuid.uuid4()\<close> is a 128-bit word; its
  canonical textual form is its 32 lower-case hexadecimal digits, most significant first,
  in groups of 8, 4, 4, 4 and 12 joined by hyphens.
\<close>

definition hex_digit :: "nat \<Rightarrow> char" where
  "hex_digit n = ''0123456789abcdef'' ! (n mod 16)"

definition hex32 :: "128 word \<Rightarrow> string" where
  "hex32 u = map (\<lambda>i. hex_digit (unat (drop_bit (4 * (31 - i)) u AND 15))) [0..<32]"

definition uuid_str :: "128 word \<Rightarrow> string" where
  "uuid_str u =
     (let h = hex32 u
      in take 8 h @ ''-'' @ take 4 (drop 8 h) @ ''-'' @ take 4 (drop 12 h) @ ''-'' @
         take 4 (drop 16 h) @ ''-'' @ drop 20 h)"

text \<open>Lines 58 to 71; \<open>u\<close> is the value that \<^verbatim>\<open>uuid.uuid4()\<close> drew.\<close>

definition generate_room :: "request \<Rightarrow> 128 word \<Rightarrow> registry \<Rightarrow> template_response \<times> registry" where
  "generate_room request u connections =
     (let room_id = uuid_str u;
          base_url = url_scheme request @ ''://'' @
                     (case headers request ''host'' of None \<Rightarrow> ''localhost:8088'' | Some h \<Rightarrow> h);
          share_link = base_url @ ''/share/'' @ room_id;
          view_link = base_url @ ''/view/'' @ room_id
      in (\<lparr>template_name = ''share.html'',
           context_dict = [(''request'', Req request),
                           (''title'', Str ''Screen Sharing Links''),
                      (''share_link'', Str share_link),
                      (''view_link'', Str view_link)]\<rparr>,
          connections))"

text \<open>Lines 89 to 99 and 117 to 127; the content is a triple-quoted string of two lines.\<close>

definition newline :: string where
  "newline = [CHR 0x0A]"

definition indent :: string where
  "indent = ''        ''"

definition share_screen :: "request \<Rightarrow> room_id \<Rightarrow> registry \<Rightarrow> template_response \<times> registry" where
  "share_screen request room_id connections =
     (\<lparr>template_name = ''base.html'',
       context_dict = [(''request'', Req request),
                  (''title'', Str (''Sharing Room '' @ room_id)),
                  (''content'', Str (newline @ indent @
                     ''<p>Sharing screen for room <strong>'' @ room_id @ ''</strong>.</p>'' @
                     newline @ indent @ ''<p>Screen sharing functionality coming soon.</p>'' @
                     newline @ indent))]\<rparr>,
      connections)"

definition view_screen :: "request \<Rightarrow> room_id \<Rightarrow> registry \<Rightarrow> template_response \<times> registry" where
  "view_screen request room_id connections =
     (\<lparr>template_name = ''base.html'',
       context_dict = [(''request'', Req request),
                  (''title'', Str (''Viewing Room '' @ room_id)),
                  (''content'', Str (newline @ indent @
                     ''<p>Viewing screen for room <strong>'' @ room_id @ ''</strong>.</p>'' @
                     newline @ indent @ ''<p>Screen viewing functionality coming soon.</p>'' @
                     newline @ indent))]\<rparr>,
      connections)"

section \<open>Properties of join\<close>

lemma join_same:
  "join connections room_id ws room_id =
     Some ((case connections room_id of None \<Rightarrow> [] | Some cs \<Rightarrow> cs) @ [ws])"
  by (simp add: join_def split: option.splits)

lemma join_other: "r \<noteq> room_id \<Longrightarrow> join connections room_id ws r = connections r"
  by (simp add: join_def split: option.splits)

section \<open>Properties of the broadcast and of the relay loop\<close>

lemma broadcast_all_sent:
  "\<forall>c \<in> set cs. c \<noteq> ws \<longrightarrow> send_text c data = None \<Longrightarrow>
   broadcast send_text ws data cs = (map (\<lambda>c. (c, data, None)) (filter (\<lambda>c. c \<noteq> ws) cs), None)"
  by (induction cs) auto






section \<open>The invariant of a run\<close>

lemma consistent_start: "consistent start"
  by (simp add: consistent_def start_def)

lemma leave_member:
  "connections room_id = Some cs \<Longrightarrow> ws \<in> set cs \<Longrightarrow>
   leave connections room_id ws = (connections(room_id \<mapsto> remove1 ws cs), None)"
  by (simp add: leave_def)

lemma cleanup_member:
  "connections room_id = Some cs \<Longrightarrow> ws \<in> set cs \<Longrightarrow>
   cleanup connections room_id ws e =
     (connections(room_id \<mapsto> remove1 ws cs), if caught e then Returned else Propagated e)"
  by (simp add: cleanup_def leave_member)

lemma consistent_connect:
  assumes "consistent s" and "sessions s ws = None"
  shows "consistent (s\<lparr>conns := join (conns s) room_id ws,
                       sessions := (sessions s)(ws \<mapsto> (room_id, True))\<rparr>)"
proof -
  have fresh: "ws \<notin> set cs" if "conns s r = Some cs" for r cs
    using assms that by (auto simp: consistent_def)
  show ?thesis
    unfolding consistent_def
  proof (intro conjI allI impI)
    fix r cs
    assume h: "conns (s\<lparr>conns := join (conns s) room_id ws,
                       sessions := (sessions s)(ws \<mapsto> (room_id, True))\<rparr>) r = Some cs"
    show "distinct cs"
    proof (cases "r = room_id")
      case True
      with h have "cs = (case conns s room_id of None \<Rightarrow> [] | Some cs \<Rightarrow> cs) @ [ws]"
        by (simp add: join_same)
      then show ?thesis using assms(1) fresh [of room_id]
        by (auto simp: consistent_def split: option.splits)
    next
      case False
      with h show ?thesis using assms(1) by (auto simp: join_other consistent_def)
    qed
    show "\<forall>c\<in>set cs. sessions (s\<lparr>conns := join (conns s) room_id ws,
                       sessions := (sessions s)(ws \<mapsto> (room_id, True))\<rparr>) c = Some (r, True)"
    proof (cases "r = room_id")
      case True
      with h have "cs = (case conns s room_id of None \<Rightarrow> [] | Some cs \<Rightarrow> cs) @ [ws]"
        by (simp add: join_same)
      then show ?thesis using assms(1) True
        by (auto simp: consistent_def split: option.splits)
    next
      case False
      with h have "conns s r = Some cs" by (simp add: join_other)
      then show ?thesis using assms(1) fresh [of r cs] by (auto simp: consistent_def)
    qed
  next
    fix c r
    assume h: "sessions (s\<lparr>conns := join (conns s) room_id ws,
                       sessions := (sessions s)(ws \<mapsto> (room_id, True))\<rparr>) c = Some (r, True)"
    show "\<exists>cs. conns (s\<lparr>conns := join (conns s) room_id ws,
                       sessions := (sessions s)(ws \<mapsto> (room_id, True))\<rparr>) r = Some cs \<and> c \<in> set cs"
    proof (cases "c = ws")
      case True
      with h show ?thesis by (simp add: join_same)
    next
      case False
      with h have "sessions s c = Some (r, True)" by simp
      then obtain cs where "conns s r = Some cs" "c \<in> set cs"
        using assms(1) unfolding consistent_def by blast
      then show ?thesis by (cases "r = room_id") (simp_all add: join_same join_other)
    qed
  qed
qed

lemma consistent_close:
  assumes "consistent s" and "sessions s ws = Some (room_id, True)"
  shows "consistent (close_session s ws room_id e)"
proof -
  from assms obtain cs where cs: "conns s room_id = Some cs" "ws \<in> set cs"
    unfolding consistent_def by blast
  have eq: "close_session s ws room_id e =
      s\<lparr>conns := (conns s)(room_id \<mapsto> remove1 ws cs),
        sessions := (sessions s)(ws \<mapsto> (room_id, False))\<rparr>"
    using cleanup_member [of "conns s" room_id cs ws e] cs by (simp add: close_session_def)
  have d: "distinct cs" using assms(1) cs by (auto simp: consistent_def)
  have other: "ws \<notin> set cs'" if "conns s r = Some cs'" "r \<noteq> room_id" for r cs'
    using assms that by (auto simp: consistent_def)
  show ?thesis
    unfolding eq consistent_def
  proof (intro conjI allI impI)
    fix r cs'
    assume h: "conns (s\<lparr>conns := (conns s)(room_id \<mapsto> remove1 ws cs),
        sessions := (sessions s)(ws \<mapsto> (room_id, False))\<rparr>) r = Some cs'"
    show "distinct cs'"
      using h d assms(1) by (cases "r = room_id") (auto simp: consistent_def)
    show "\<forall>c\<in>set cs'. sessions (s\<lparr>conns := (conns s)(room_id \<mapsto> remove1 ws cs),
        sessions := (sessions s)(ws \<mapsto> (room_id, False))\<rparr>) c = Some (r, True)"
    proof (cases "r = room_id")
      case True
      with h have "cs' = remove1 ws cs" by simp
      then show ?thesis using d cs assms(1) True by (auto simp: consistent_def)
    next
      case False
      with h have "conns s r = Some cs'" by simp
      then show ?thesis using other [of r cs'] False assms(1) by (auto simp: consistent_def)
    qed
  next
    fix c r
    assume h: "sessions (s\<lparr>conns := (conns s)(room_id \<mapsto> remove1 ws cs),
        sessions := (sessions s)(ws \<mapsto> (room_id, False))\<rparr>) c = Some (r, True)"
    then have ne: "c \<noteq> ws" and "sessions s c = Some (r, True)" by (auto split: if_splits)
    then obtain cs' where "conns s r = Some cs'" "c \<in> set cs'"
      using assms(1) unfolding consistent_def by blast
    then show "\<exists>cs'. conns (s\<lparr>conns := (conns s)(room_id \<mapsto> remove1 ws cs),
        sessions := (sessions s)(ws \<mapsto> (room_id, False))\<rparr>) r = Some cs' \<and> c \<in> set cs'"
      using ne cs by (cases "r = room_id") auto
  qed
qed

lemma consistent_sent: "consistent (s\<lparr>sent := x\<rparr>) = consistent s"
  by (simp add: consistent_def)

lemma step_consistent:
  "consistent s \<Longrightarrow> step send_text s ev = Some s' \<Longrightarrow> consistent s'"
proof (cases ev)
  case (Connect ws room_id)
  assume "consistent s" "step send_text s ev = Some s'"
  then show ?thesis using Connect consistent_connect [of s ws room_id]
    by (auto split: if_splits)
next
  case (Message ws data)
  assume a: "consistent s" "step send_text s ev = Some s'"
  then obtain room_id where live: "sessions s ws = Some (room_id, True)"
    using Message by (auto split: option.splits bool.splits)
  obtain calls r where rl: "relay_loop send_text (conns s) room_id ws [Text data] = (calls, r)"
    by (cases "relay_loop send_text (conns s) room_id ws [Text data]") 
  show ?thesis
  proof (cases r)
    case None
    with a Message live rl have "s' = s\<lparr>sent := sent s @ calls\<rparr>" by simp
    then show ?thesis using a(1) by (simp add: consistent_sent)
  next
    case (Some e)
    with a Message live rl have "s' = close_session (s\<lparr>sent := sent s @ calls\<rparr>) ws room_id e" by simp
    then show ?thesis using a(1) live consistent_close [of "s\<lparr>sent := sent s @ calls\<rparr>" ws room_id e]
      by (simp add: consistent_sent)
  qed
next
  case (Disconnect ws e)
  assume "consistent s" "step send_text s ev = Some s'"
  then show ?thesis using Disconnect consistent_close [of s ws _ e]
    by (auto split: option.splits bool.splits)
qed

lemma run_consistent:
  "consistent s \<Longrightarrow> run send_text s evs = Some s' \<Longrightarrow> consistent s'"
proof (induction evs arbitrary: s)
  case Nil
  then show ?case by simp
next
  case (Cons ev evs)
  then show ?case by (auto split: option.splits dest: step_consistent)
qed

lemma run_start_consistent: "run send_text start evs = Some s \<Longrightarrow> consistent s"
  using run_consistent [OF consistent_start] by blast

section \<open>The keys of the registry\<close>

lemma dom_join: "dom (join connections room_id ws) = insert room_id (dom connections)"
  by (auto simp: join_def split: option.splits if_splits)

lemma dom_leave: "dom (fst (leave connections room_id ws)) = dom connections"
  by (auto simp: leave_def split: option.splits if_splits)

lemma fst_cleanup: "fst (cleanup connections room_id ws e) = fst (leave connections room_id ws)"
  by (simp add: cleanup_def split: prod.splits option.splits)

lemma dom_cleanup: "dom (fst (cleanup connections room_id ws e)) = dom connections"
  by (simp add: fst_cleanup dom_leave)

lemma conns_close_session:
  "conns (close_session s ws room_id e) = fst (cleanup (conns s) room_id ws e)"
  by (simp add: close_session_def)

lemma step_conns:
  assumes "step send_text s ev = Some s'"
  shows "(\<exists>room_id ws. conns s' = join (conns s) room_id ws) \<or> conns s' = conns s \<or>
         (\<exists>room_id ws e. conns s' = fst (cleanup (conns s) room_id ws e))"
proof (cases ev)
  case (Connect ws room_id)
  with assms have "conns s' = join (conns s) room_id ws" by (auto split: if_splits)
  then show ?thesis by blast
next
  case (Message ws data)
  with assms obtain room_id where live: "sessions s ws = Some (room_id, True)"
    by (auto split: option.splits bool.splits)
  obtain calls r where rl: "relay_loop send_text (conns s) room_id ws [Text data] = (calls, r)"
    by (cases "relay_loop send_text (conns s) room_id ws [Text data]")
  show ?thesis
  proof (cases r)
    case None
    with assms Message live rl have "s' = s\<lparr>sent := sent s @ calls\<rparr>" by simp
    then show ?thesis by simp
  next
    case (Some e)
    with assms Message live rl
    have "s' = close_session (s\<lparr>sent := sent s @ calls\<rparr>) ws room_id e" by simp
    then have "conns s' = fst (cleanup (conns s) room_id ws e)"
      by (simp add: conns_close_session)
    then show ?thesis by blast
  qed
next
  case (Disconnect ws e)
  with assms obtain room_id where "s' = close_session s ws room_id e"
    by (auto split: option.splits bool.splits)
  then have "conns s' = fst (cleanup (conns s) room_id ws e)"
    by (simp add: conns_close_session)
  then show ?thesis by blast
qed

lemma step_dom: "step send_text s ev = Some s' \<Longrightarrow> dom (conns s) \<subseteq> dom (conns s')"
  using step_conns [of send_text s ev s'] dom_join dom_cleanup by (metis order_refl subset_insertI)

lemma run_dom: "run send_text s evs = Some s' \<Longrightarrow> dom (conns s) \<subseteq> dom (conns s')"
proof (induction evs arbitrary: s)
  case Nil
  then show ?case by simp
next
  case (Cons ev evs)
  from Cons.prems obtain s1 where s1: "step send_text s ev = Some s1" "run send_text s1 evs = Some s'"
    by (auto split: option.splits)
  from step_dom [OF s1(1)] Cons.IH [OF s1(2)] show ?case by blast
qed

section \<open>One pass of the loop body in a run\<close>


section \<open>The end of a session in a run\<close>

lemma ended_session_in_no_room:
  assumes "consistent s" and "sessions s ws = Some (room_id, False)" and "conns s r = Some cs"
  shows "ws \<notin> set cs"
proof
  assume "ws \<in> set cs"
  with assms(1,3) have "sessions s ws = Some (r, True)"
    unfolding consistent_def by blast
  with assms(2) show False by simp
qed

lemma sessions_close_session:
  "sessions (close_session s ws room_id e) = (sessions s)(ws \<mapsto> (room_id, False))"
  by (simp add: close_session_def)

lemma exit_in_run:
  assumes "run send_text start evs = Some s" and "sessions s ws = Some (room_id, True)"
  shows "\<exists>s'. step send_text s (Disconnect ws e) = Some s' \<and>
              sessions s' ws = Some (room_id, False) \<and>
              (\<forall>r cs. conns s' r = Some cs \<longrightarrow> ws \<notin> set cs)"
proof -
  have c: "consistent s" using assms(1) by (rule run_start_consistent)
  let ?s' = "close_session s ws room_id e"
  have st: "step send_text s (Disconnect ws e) = Some ?s'" using assms(2) by simp
  have c': "consistent ?s'" using c assms(2) by (rule consistent_close)
  have f: "sessions ?s' ws = Some (room_id, False)" by (simp add: sessions_close_session)
  have "ws \<notin> set cs" if "conns ?s' r = Some cs" for r cs
    using c' f that by (rule ended_session_in_no_room)
  with st f show ?thesis by blast
qed

section \<open>The session on its own\<close>

lemma leave_after_join:
  "leave (join connections room_id ws) room_id ws =
     ((join connections room_id ws)
        (room_id \<mapsto> remove1 ws ((case connections room_id of None \<Rightarrow> [] | Some cs \<Rightarrow> cs) @ [ws])),
      None)"
  by (simp add: leave_def join_same)

lemma cleanup_after_join:
  "cleanup (join connections room_id ws) room_id ws e =
     ((join connections room_id ws)
        (room_id \<mapsto> remove1 ws ((case connections room_id of None \<Rightarrow> [] | Some cs \<Rightarrow> cs) @ [ws])),
      if caught e then Returned else Propagated e)"
  by (simp add: cleanup_def leave_after_join)

lemma remove1_fresh: "ws \<notin> set old \<Longrightarrow> remove1 ws (old @ [ws]) = old"
  by (induction old) auto

lemma relay_loop_Raises:
  "Raises e \<in> set inbox \<Longrightarrow> \<exists>e'. snd (relay_loop send_text connections room_id ws inbox) = Some e'"
proof (induction send_text connections room_id ws inbox rule: relay_loop.induct)
  case (1 send_text connections room_id ws)
  then show ?case by simp
next
  case (2 send_text connections room_id ws e' inbox)
  then show ?case by simp
next
  case (3 send_text connections room_id ws data inbox)
  then show ?case
    by (auto split: option.splits prod.splits)
qed

section \<open>The process with its awaits\<close>

text \<open>
  Every event of the process keeps the invariant of a run, seen through \<open>abstract\<close>:
  the joins and leaves are the same single steps, and the walk of the iterator writes to
  no list.
\<close>

lemma abstract_simps:
  "conns (abstract s) = rooms s"
  "sent (abstract s) = wire s"
  "sessions (abstract s) c = (case tasks s c of None \<Rightarrow> None | Some (r, p) \<Rightarrow> Some (r, live p))"
  by (simp_all add: abstract_def)

lemma abstract_wire: "abstract (s\<lparr>wire := w\<rparr>) = (abstract s)\<lparr>sent := w\<rparr>"
  by (simp add: abstract_def)

lemma abstract_iterate:
  assumes "tasks s ws = Some (room_id, p)" and "live p"
  shows "abstract (iterate s ws room_id data i) = abstract s"
proof -
  have "(\<lambda>c. case ((tasks s)(ws \<mapsto> (room_id, q))) c of None \<Rightarrow> None | Some (r, p) \<Rightarrow> Some (r, live p)) =
        (\<lambda>c. case tasks s c of None \<Rightarrow> None | Some (r, p) \<Rightarrow> Some (r, live p))"
    if "live q" for q
    using assms that by (auto simp: fun_eq_iff)
  then show ?thesis
    by (auto simp: iterate_def abstract_def split: option.splits prod.splits)
qed

lemma abstract_finish:
  "abstract (finish s ws room_id e) = close_session (abstract s) ws room_id e"
proof -
  obtain c' out where c: "cleanup (rooms s) room_id ws e = (c', out)"
    by (cases "cleanup (rooms s) room_id ws e")
  have "(\<lambda>c. case ((tasks s)(ws \<mapsto> (room_id, Ended out))) c of None \<Rightarrow> None
             | Some (r, p) \<Rightarrow> Some (r, live p)) =
        (\<lambda>c. case tasks s c of None \<Rightarrow> None | Some (r, p) \<Rightarrow> Some (r, live p))
          (ws \<mapsto> (room_id, False))"
    by (auto simp: fun_eq_iff)
  then show ?thesis
    using c by (simp add: finish_def abstract_def close_session_def)
qed

lemma abstract_accept:
  "abstract (s\<lparr>rooms := join (rooms s) room_id ws, tasks := (tasks s)(ws \<mapsto> (room_id, Receiving))\<rparr>) =
   (abstract s)\<lparr>conns := join (conns (abstract s)) room_id ws,
                sessions := (sessions (abstract s))(ws \<mapsto> (room_id, True))\<rparr>"
  by (auto simp: abstract_def fun_eq_iff)

lemma advance_consistent:
  assumes "consistent (abstract s)" and "advance s a = Some s'"
  shows "consistent (abstract s')"
proof (cases a)
  case (Accept ws room_id)
  with assms(2) have f: "tasks s ws = None"
    and e: "s' = s\<lparr>rooms := join (rooms s) room_id ws, tasks := (tasks s)(ws \<mapsto> (room_id, Receiving))\<rparr>"
    by (auto split: if_splits)
  from f have "sessions (abstract s) ws = None" by (simp add: abstract_simps)
  with assms(1) show ?thesis unfolding e abstract_accept by (rule consistent_connect)
next
  case (Receive ws data)
  with assms(2) obtain room_id where t: "tasks s ws = Some (room_id, Receiving)"
    by (auto split: option.splits prod.splits phase.splits)
  then have l: "sessions (abstract s) ws = Some (room_id, True)" by (simp add: abstract_simps)
  show ?thesis
  proof (cases "rooms s room_id")
    case None
    with assms(2) Receive t have "s' = finish s ws room_id KeyError" by simp
    then show ?thesis using consistent_close [OF assms(1) l] by (simp add: abstract_finish)
  next
    case (Some cs)
    with assms(2) Receive t have "s' = iterate s ws room_id data 0" by simp
    then show ?thesis using assms(1) abstract_iterate [OF t] by simp
  qed
next
  case (ReceiveRaises ws e)
  with assms(2) obtain room_id where t: "tasks s ws = Some (room_id, Receiving)"
    and e: "s' = finish s ws room_id e"
    by (auto split: option.splits prod.splits phase.splits)
  from t have l: "sessions (abstract s) ws = Some (room_id, True)" by (simp add: abstract_simps)
  show ?thesis using consistent_close [OF assms(1) l] by (simp add: e abstract_finish)
next
  case (SendReturns ws)
  with assms(2) obtain room_id data i c where t: "tasks s ws = Some (room_id, Sending data i c)"
    and e: "s' = iterate (s\<lparr>wire := wire s @ [(c, data, None)]\<rparr>) ws room_id data i"
    by (auto split: option.splits prod.splits phase.splits)
  from t have "tasks (s\<lparr>wire := wire s @ [(c, data, None)]\<rparr>) ws = Some (room_id, Sending data i c)"
    by simp
  from abstract_iterate [OF this] have "abstract s' = (abstract s)\<lparr>sent := wire s @ [(c, data, None)]\<rparr>"
    by (simp add: e abstract_wire)
  then show ?thesis using assms(1) by (simp add: consistent_sent)
next
  case (SendRaises ws e)
  with assms(2) obtain room_id data i c where t: "tasks s ws = Some (room_id, Sending data i c)"
    and e: "s' = finish (s\<lparr>wire := wire s @ [(c, data, Some e)]\<rparr>) ws room_id e"
    by (auto split: option.splits prod.splits phase.splits)
  from t have l: "sessions ((abstract s)\<lparr>sent := wire s @ [(c, data, Some e)]\<rparr>) ws = Some (room_id, True)"
    by (simp add: abstract_simps)
  have "consistent ((abstract s)\<lparr>sent := wire s @ [(c, data, Some e)]\<rparr>)"
    using assms(1) by (simp add: consistent_sent)
  from consistent_close [OF this l] show ?thesis
    by (simp add: e abstract_finish abstract_wire)
qed

lemma execute_consistent:
  "consistent (abstract s) \<Longrightarrow> execute s as = Some s' \<Longrightarrow> consistent (abstract s')"
proof (induction as arbitrary: s)
  case Nil
  then show ?case by simp
next
  case (Cons a as)
  then show ?case by (auto split: option.splits dest: advance_consistent)
qed

lemma consistent_idle: "consistent (abstract idle)"
  by (simp add: consistent_def abstract_def idle_def)

lemma leave_of_running_session:
  assumes "execute idle as = Some s" and "tasks s ws = Some (room_id, p)" and "live p"
  shows "\<exists>cs. rooms s room_id = Some cs \<and> ws \<in> set cs \<and>
              snd (leave (rooms s) room_id ws) = None"
proof -
  have c: "consistent (abstract s)"
    using consistent_idle assms(1) by (rule execute_consistent)
  have "sessions (abstract s) ws = Some (room_id, True)"
    using assms(2,3) by (simp add: abstract_simps)
  with c obtain cs where "conns (abstract s) room_id = Some cs" "ws \<in> set cs"
    unfolding consistent_def by blast
  then have "rooms s room_id = Some cs" "ws \<in> set cs" by (simp_all add: abstract_simps)
  then show ?thesis by (simp add: leave_member)
qed

lemma registry_of_interleaved_run:
  assumes "execute idle as = Some s"
  shows "(\<forall>r cs. rooms s r = Some cs \<longrightarrow> distinct cs) \<and>
         (\<forall>r1 r2 cs1 cs2 c. rooms s r1 = Some cs1 \<and> rooms s r2 = Some cs2 \<and>
            c \<in> set cs1 \<and> c \<in> set cs2 \<longrightarrow> r1 = r2)"
proof -
  have c: "consistent (abstract s)"
    using consistent_idle assms by (rule execute_consistent)
  have "distinct cs" if "rooms s r = Some cs" for r cs
    using c that unfolding consistent_def by (simp add: abstract_simps)
  moreover have "r1 = r2"
    if "rooms s r1 = Some cs1" "rooms s r2 = Some cs2" "c \<in> set cs1" "c \<in> set cs2"
    for r1 r2 cs1 cs2 c
  proof -
    from that have "conns (abstract s) r1 = Some cs1" "conns (abstract s) r2 = Some cs2"
      by (simp_all add: abstract_simps)
    with c that(3,4)
    have "sessions (abstract s) c = Some (r1, True)" "sessions (abstract s) c = Some (r2, True)"
      unfolding consistent_def by blast+
    then show ?thesis by simp
  qed
  ultimately show ?thesis by blast
qed

text \<open>
  A pass that no other session cuts into, and in which every send returns, calls
  \<^verbatim>\<open>send_text\<close> once on every other connection of the room, in the order of the list:
  it is the single step of the first reading.
\<close>

lemma pass_from_index:
  assumes "rooms s room_id = Some cs"
  shows "execute (iterate s ws room_id data i)
           (replicate (length (filter (\<lambda>c. c \<noteq> ws) (drop i cs))) (SendReturns ws)) =
         Some (s\<lparr>tasks := (tasks s)(ws \<mapsto> (room_id, Receiving)),
                 wire := wire s @ map (\<lambda>c. (c, data, None)) (filter (\<lambda>c. c \<noteq> ws) (drop i cs))\<rparr>)"
  using assms
proof (induction "length cs - i" arbitrary: i s)
  case 0
  then have d: "drop i cs = []" by simp
  have "iterate s ws room_id data i = s\<lparr>tasks := (tasks s)(ws \<mapsto> (room_id, Receiving))\<rparr>"
    using "0.prems" d by (simp add: iterate_def)
  then show ?case using d by (simp add: fun_upd_def)
next
  case (Suc n)
  then have lt: "i < length cs" by simp
  then have d: "drop i cs = cs ! i # drop (Suc i) cs" by (simp add: Cons_nth_drop_Suc)
  have n: "n = length cs - Suc i" using Suc(2) by simp
  show ?case
  proof (cases "cs ! i = ws")
    case True
    have "iterate s ws room_id data i = iterate s ws room_id data (Suc i)"
      using Suc.prems d True by (simp add: iterate_def)
    then show ?thesis using Suc(1) [OF n Suc.prems] d True by simp
  next
    case False
    let ?s1 = "s\<lparr>wire := wire s @ [(cs ! i, data, None)]\<rparr>"
    have it: "iterate s ws room_id data i =
                s\<lparr>tasks := (tasks s)(ws \<mapsto> (room_id, Sending data (Suc i) (cs ! i)))\<rparr>"
      using Suc.prems d False by (simp add: iterate_def)
    have st: "advance (iterate s ws room_id data i) (SendReturns ws) =
                Some (iterate ?s1 ws room_id data (Suc i))"
      unfolding it by (simp add: iterate_def split: option.splits prod.splits)
    have r1: "rooms ?s1 room_id = Some cs" using Suc.prems by simp
    from Suc(1) [OF n r1] show ?thesis
      using d False st by simp
  qed
qed

lemma pass_without_interleaving:
  assumes "tasks s ws = Some (room_id, Receiving)" and "rooms s room_id = Some cs"
  shows "execute s (Receive ws data #
                    replicate (length (filter (\<lambda>c. c \<noteq> ws) cs)) (SendReturns ws)) =
         Some (s\<lparr>wire := wire s @ map (\<lambda>c. (c, data, None)) (filter (\<lambda>c. c \<noteq> ws) cs)\<rparr>)"
proof -
  have "(tasks s)(ws \<mapsto> (room_id, Receiving)) = tasks s"
    using assms(1) by (auto simp: fun_eq_iff)
  then show ?thesis
    using assms pass_from_index [OF assms(2), of ws data 0] by simp
qed

lemma pass_matches_step:
  assumes "tasks s ws = Some (room_id, Receiving)" and "rooms s room_id = Some cs"
      and "\<forall>c \<in> set cs. c \<noteq> ws \<longrightarrow> send_text c data = None"
  shows "map_option abstract
           (execute s (Receive ws data #
                       replicate (length (filter (\<lambda>c. c \<noteq> ws) cs)) (SendReturns ws))) =
         step send_text (abstract s) (Message ws data)"
proof -
  have l: "sessions (abstract s) ws = Some (room_id, True)"
    using assms(1) by (simp add: abstract_simps)
  have "relay_loop send_text (conns (abstract s)) room_id ws [Text data] =
          (map (\<lambda>c. (c, data, None)) (filter (\<lambda>c. c \<noteq> ws) cs), None)"
    using assms(2,3) broadcast_all_sent [of cs ws send_text data] by (simp add: abstract_simps)
  with l have "step send_text (abstract s) (Message ws data) =
      Some ((abstract s)\<lparr>sent := sent (abstract s) @
              map (\<lambda>c. (c, data, None)) (filter (\<lambda>c. c \<noteq> ws) cs)\<rparr>)"
    by simp
  then show ?thesis
    using pass_without_interleaving [OF assms(1,2), of data]
    by (simp add: abstract_wire abstract_simps)
qed

section \<open>The textual form of a room identifier\<close>

lemma length_hex32: "length (hex32 u) = 32"
  by (simp add: hex32_def)

lemma hex_digit_in: "hex_digit n \<in> set ''0123456789abcdef''"
proof -
  have "n mod 16 < length ''0123456789abcdef''" by simp
  then have "''0123456789abcdef'' ! (n mod 16) \<in> set ''0123456789abcdef''"
    by (rule nth_mem)
  then show ?thesis by (simp only: hex_digit_def)
qed

lemma set_hex32: "c \<in> set (hex32 u) \<Longrightarrow> c \<in> set ''0123456789abcdef''"
  unfolding hex32_def using hex_digit_in by auto

lemma hex32_example:
  "hex32 0x0123456789abcdef0123456789abcdef = ''0123456789abcdef0123456789abcdef''"
  by (simp add: hex32_def upt_rec hex_digit_def)

section \<open>The claims about join\<close>

text \<open>
  Claim C5. Joining a channel to a room appends it to that room's collection, which starts
  empty when the room identifier is not yet a key of the registry; the collection of every
  other room is as it was.
\<close>

theorem join_appends_to_own_room:
  "join connections room_id ws room_id =
     Some ((case connections room_id of None \<Rightarrow> [] | Some cs \<Rightarrow> cs) @ [ws]) \<and>
   (\<forall>r. r \<noteq> room_id \<longrightarrow> join connections room_id ws r = connections r)"
  by (simp add: join_same join_other)

theorem join_appends_to_own_room_witness:
  "join (Map.empty(''x'' \<mapsto> [1, 2])) ''abc'' 7 ''abc'' = Some [7] \<and>
   join (Map.empty(''x'' \<mapsto> [1, 2])) ''x'' 7 ''x'' = Some [1, 2, 7] \<and>
   join (Map.empty(''x'' \<mapsto> [1, 2])) ''abc'' 7 ''x'' = Some [1, 2]"
  using join_appends_to_own_room [of "Map.empty(''x'' \<mapsto> [1, 2])" "''abc''" 7]
        join_appends_to_own_room [of "Map.empty(''x'' \<mapsto> [1, 2])" "''x''" 7]
  by simp

section \<open>The claims about the registry over a run\<close>

text \<open>
  Claim C6. A run that \<open>step\<close> accepts is one in which every session joins once, with a
  WebSocket object that no earlier session had, and leaves at most once. In every state of
  such a run, no room's collection holds a channel twice, and no channel is in the
  collections of two rooms.
\<close>

theorem registry_distinct_and_disjoint:
  assumes "run send_text start evs = Some s"
  shows "(\<forall>r cs. conns s r = Some cs \<longrightarrow> distinct cs) \<and>
         (\<forall>r1 r2 cs1 cs2 c. conns s r1 = Some cs1 \<and> conns s r2 = Some cs2 \<and>
            c \<in> set cs1 \<and> c \<in> set cs2 \<longrightarrow> r1 = r2)"
proof -
  have c: "consistent s" using assms by (rule run_start_consistent)
  have "distinct cs" if "conns s r = Some cs" for r cs
    using c that unfolding consistent_def by blast
  moreover have "r1 = r2"
    if "conns s r1 = Some cs1" "conns s r2 = Some cs2" "c \<in> set cs1" "c \<in> set cs2"
    for r1 r2 cs1 cs2 c
  proof -
    have "sessions s c = Some (r1, True)" "sessions s c = Some (r2, True)"
      using c that unfolding consistent_def by blast+
    then show ?thesis by simp
  qed
  ultimately show ?thesis by blast
qed

theorem registry_distinct_and_disjoint_witness:
  "\<exists>s. run (\<lambda>c d. None) start
       [Connect 1 ''a'', Connect 2 ''a'', Connect 3 ''b'', Disconnect 1 WebSocketDisconnect,
        Message 2 ''hi'', Connect 4 ''b''] = Some s \<and>
       conns s ''a'' = Some [2] \<and> conns s ''b'' = Some [3, 4] \<and>
       distinct [2 :: nat] \<and> distinct [3, 4 :: nat] \<and> ''a'' \<noteq> ''b''"
proof -
  let ?evs = "[Connect 1 ''a'', Connect 2 ''a'', Connect 3 ''b'', Disconnect 1 WebSocketDisconnect,
        Message 2 ''hi'', Connect 4 ''b'']"
  obtain s where s: "run (\<lambda>c d. None) start ?evs = Some s"
    by (simp add: start_def join_def close_session_def cleanup_def leave_def caught_def)
  have a: "conns s ''a'' = Some [2]" and b: "conns s ''b'' = Some [3, 4]"
    using s by (auto simp add: start_def join_def close_session_def cleanup_def leave_def caught_def)
  from registry_distinct_and_disjoint [OF s] a b
  have "distinct [2 :: nat]" "distinct [3, 4 :: nat]" by blast+
  with s a b show ?thesis by simp
qed

text \<open>
  Claim C7. No join, no broadcast and no leave removes a key of the registry: over every
  run the set of keys only grows, and when the last channel of a room leaves, the room
  stays a key, bound to the empty collection.
\<close>

theorem room_key_never_removed:
  "(\<forall>s'. run send_text s evs = Some s' \<longrightarrow> dom (conns s) \<subseteq> dom (conns s')) \<and>
   dom connections \<subseteq> dom (join connections room_id ws) \<and>
   dom (fst (leave connections room_id ws)) = dom connections \<and>
   (connections room_id = Some [ws] \<longrightarrow>
      leave connections room_id ws = (connections(room_id \<mapsto> []), None)) \<and>
   (conns s room_id = Some [ws] \<and> sessions s ws = Some (room_id, True) \<longrightarrow>
      (\<exists>s'. step send_text s (Disconnect ws e) = Some s' \<and> conns s' room_id = Some []))"
proof (intro conjI allI impI)
  fix s' assume "run send_text s evs = Some s'"
  then show "dom (conns s) \<subseteq> dom (conns s')" by (rule run_dom)
next
  show "dom connections \<subseteq> dom (join connections room_id ws)"
    by (simp add: dom_join subset_insertI)
next
  show "dom (fst (leave connections room_id ws)) = dom connections" by (rule dom_leave)
next
  assume "connections room_id = Some [ws]"
  then show "leave connections room_id ws = (connections(room_id \<mapsto> []), None)"
    by (simp add: leave_def)
next
  assume "conns s room_id = Some [ws] \<and> sessions s ws = Some (room_id, True)"
  then show "\<exists>s'. step send_text s (Disconnect ws e) = Some s' \<and> conns s' room_id = Some []"
    by (simp add: close_session_def cleanup_def leave_def)
qed

theorem room_key_never_removed_witness:
  "\<exists>s. run (\<lambda>c d. None) start
          [Connect 1 ''x'', Connect 2 ''x'', Message 1 ''m'', Disconnect 2 ConnectionError] = Some s \<and>
       conns s ''x'' = Some [1] \<and> sessions s 1 = Some (''x'', True) \<and>
       (\<exists>s'. step (\<lambda>c d. None) s (Disconnect 1 WebSocketDisconnect) = Some s' \<and>
             conns s' ''x'' = Some [] \<and> ''x'' \<in> dom (conns s'))"
proof -
  let ?evs = "[Connect 1 ''x'', Connect 2 ''x'', Message 1 ''m'', Disconnect 2 ConnectionError]"
  let ?f = "\<lambda>(c :: websocket) (d :: string). None :: exn option"
  obtain s where s: "run ?f start ?evs = Some s"
    by (simp add: start_def join_def close_session_def cleanup_def leave_def caught_def)
  have a: "conns s ''x'' = Some [1]" and b: "sessions s 1 = Some (''x'', True)"
    using s by (auto simp add: start_def join_def close_session_def cleanup_def leave_def caught_def)
  from room_key_never_removed [of ?f s "[]" "conns s" "''x''" 1 WebSocketDisconnect] a b
  obtain s' where s': "step ?f s (Disconnect 1 WebSocketDisconnect) = Some s'" "conns s' ''x'' = Some []"
    by blast
  then have "''x'' \<in> dom (conns s')" by auto
  with s a b s' show ?thesis by blast
qed

section \<open>The claims about the broadcast\<close>



text \<open>
  Claim C1. A payload that a session receives is to be sent, unchanged, exactly once to
  every channel of the room's collection other than the sender's, and never to the sender.
  The code does not do so in every run. Here the room holds 1, 2 and 3 and every send
  returns: session 1 receives a payload and waits in the send to 2; meanwhile session 2
  ends and its cleanup removes it from the list; the send returns, and the iterator, at
  index 2 of a list that now has two entries, stops. Channel 3, in the room all along, is
  sent nothing.
\<close>

theorem peer_skipped_when_another_leaves:
  "\<exists>s. execute idle
          [Accept 1 ''abc'', Accept 2 ''abc'', Accept 3 ''abc'', Receive 1 ''hello'',
           ReceiveRaises 2 WebSocketDisconnect, SendReturns 1] = Some s \<and>
       rooms s ''abc'' = Some [1, 3] \<and>
       tasks s 1 = Some (''abc'', Receiving) \<and>
       tasks s 3 = Some (''abc'', Receiving) \<and>
       wire s = [(2, ''hello'', None)] \<and>
       received (wire s) 3 = [] \<and> 3 \<notin> attempted (wire s)"
  by (simp add: idle_def join_def iterate_def finish_def cleanup_def leave_def caught_def
        received_def attempted_def)

text \<open>
  Claim C4. A send that fails on one peer is to stay with that peer: the remaining peers
  are still to be sent the payload and the sender's loop is to go on. The code does not do
  so. In the first run the send to peer 1 raises a \<open>ConnectionError\<close>: no send to peer 2
  is attempted, the \<^verbatim>\<open>except\<close> clause of the sender takes the exception for its own
  disconnect, the sender is removed from the room and reads no further payload, and the
  failing peer stays in the room. In the second run the first payload reaches both peers
  and the send of the second payload to peer 1 raises another exception: peer 2 is not
  sent the second payload, and the exception leaves \<^verbatim>\<open>websocket_endpoint\<close>.
\<close>

theorem send_failure_ends_sender:
  "(\<exists>s. execute idle
          [Accept 1 ''abc'', Accept 2 ''abc'', Accept 3 ''abc'', Receive 3 ''a'',
           SendRaises 3 ConnectionError] = Some s \<and>
        wire s = [(1, ''a'', Some ConnectionError)] \<and> 2 \<notin> attempted (wire s) \<and>
        rooms s ''abc'' = Some [1, 2] \<and>
        tasks s 3 = Some (''abc'', Ended Returned) \<and>
        tasks s 1 = Some (''abc'', Receiving) \<and>
        advance s (Receive 3 ''b'') = None) \<and>
   (\<exists>s. execute idle
          [Accept 1 ''abc'', Accept 2 ''abc'', Accept 3 ''abc'', Receive 3 ''a'',
           SendReturns 3, SendReturns 3, Receive 3 ''b'', SendRaises 3 OtherException] = Some s \<and>
        wire s = [(1, ''a'', None), (2, ''a'', None), (1, ''b'', Some OtherException)] \<and>
        received (wire s) 2 = [''a''] \<and>
        rooms s ''abc'' = Some [1, 2] \<and>
        tasks s 3 = Some (''abc'', Ended (Propagated OtherException)))"
  by (simp add: idle_def join_def iterate_def finish_def cleanup_def leave_def caught_def
        received_def attempted_def)

section \<open>The claims about cleanup\<close>

text \<open>
  Claim C2. Whatever exception ends the relay loop, raised by \<^verbatim>\<open>receive_text\<close> (a
  close, a transport error, anything else) or by a \<^verbatim>\<open>send_text\<close>, the leave of the
  \<^verbatim>\<open>finally\<close> clause runs and does not raise: the registry the session ends with is
  the one after its join with one occurrence of its channel removed from its room, which
  for a channel that was not in the room before is the collection as it was before the
  join. An inbox that holds an exception always ends the loop. With other sessions on the
  same registry it is the same: in every state of a run, an exception in a session that is
  in its loop ends that session, and its channel is then in no room's collection.
\<close>

theorem leave_runs_on_every_exit:
  "(\<forall>e. Raises e \<in> set inbox \<longrightarrow>
      (\<exists>e'. snd (relay_loop send_text (join connections room_id ws) room_id ws inbox) = Some e')) \<and>
   (\<forall>calls e. relay_loop send_text (join connections room_id ws) room_id ws inbox = (calls, Some e) \<longrightarrow>
      leave (join connections room_id ws) room_id ws =
        ((join connections room_id ws)
           (room_id \<mapsto> remove1 ws ((case connections room_id of None \<Rightarrow> [] | Some cs \<Rightarrow> cs) @ [ws])),
         None) \<and>
      websocket_endpoint send_text connections ws room_id None inbox =
        ((join connections room_id ws)
           (room_id \<mapsto> remove1 ws ((case connections room_id of None \<Rightarrow> [] | Some cs \<Rightarrow> cs) @ [ws])),
         calls, if caught e then Returned else Propagated e) \<and>
      (ws \<notin> set (case connections room_id of None \<Rightarrow> [] | Some cs \<Rightarrow> cs) \<longrightarrow>
         fst (websocket_endpoint send_text connections ws room_id None inbox) room_id =
           Some (case connections room_id of None \<Rightarrow> [] | Some cs \<Rightarrow> cs))) \<and>
   (run send_text start evs = Some s \<and> sessions s ws = Some (room_id, True) \<longrightarrow>
      (\<exists>s'. step send_text s (Disconnect ws x) = Some s' \<and>
            sessions s' ws = Some (room_id, False) \<and>
            (\<forall>r cs. conns s' r = Some cs \<longrightarrow> ws \<notin> set cs)))"
proof (intro conjI allI impI)
  assume "run send_text start evs = Some s \<and> sessions s ws = Some (room_id, True)"
  then show "\<exists>s'. step send_text s (Disconnect ws x) = Some s' \<and>
            sessions s' ws = Some (room_id, False) \<and>
            (\<forall>r cs. conns s' r = Some cs \<longrightarrow> ws \<notin> set cs)"
    using exit_in_run by blast
next
  fix e assume "Raises e \<in> set inbox"
  then show "\<exists>e'. snd (relay_loop send_text (join connections room_id ws) room_id ws inbox) = Some e'"
    by (rule relay_loop_Raises)
next
  fix calls e
  assume rl: "relay_loop send_text (join connections room_id ws) room_id ws inbox = (calls, Some e)"
  show "leave (join connections room_id ws) room_id ws =
        ((join connections room_id ws)
           (room_id \<mapsto> remove1 ws ((case connections room_id of None \<Rightarrow> [] | Some cs \<Rightarrow> cs) @ [ws])),
         None)"
    by (rule leave_after_join)
  show w: "websocket_endpoint send_text connections ws room_id None inbox =
        ((join connections room_id ws)
           (room_id \<mapsto> remove1 ws ((case connections room_id of None \<Rightarrow> [] | Some cs \<Rightarrow> cs) @ [ws])),
         calls, if caught e then Returned else Propagated e)"
    using rl by (simp add: websocket_endpoint_def cleanup_after_join)
  assume "ws \<notin> set (case connections room_id of None \<Rightarrow> [] | Some cs \<Rightarrow> cs)"
  then show "fst (websocket_endpoint send_text connections ws room_id None inbox) room_id =
           Some (case connections room_id of None \<Rightarrow> [] | Some cs \<Rightarrow> cs)"
    by (simp add: w remove1_fresh)
qed

theorem leave_runs_on_every_exit_witness:
  "fst (websocket_endpoint (\<lambda>c d. None) (Map.empty(''x'' \<mapsto> [1])) 2 ''x'' None
          [Text ''a'', Raises WebSocketDisconnect]) ''x'' = Some [1] \<and>
   snd (websocket_endpoint (\<lambda>c d. None) (Map.empty(''x'' \<mapsto> [1])) 2 ''x'' None
          [Text ''a'', Raises WebSocketDisconnect]) = ([(1, ''a'', None)], Returned) \<and>
   fst (websocket_endpoint (\<lambda>c d. Some OtherException) (Map.empty(''x'' \<mapsto> [1])) 2 ''x'' None
          [Text ''a'']) ''x'' = Some [1] \<and>
   snd (websocket_endpoint (\<lambda>c d. Some OtherException) (Map.empty(''x'' \<mapsto> [1])) 2 ''x'' None
          [Text ''a'']) = ([(1, ''a'', Some OtherException)], Propagated OtherException) \<and>
   (\<exists>s s'. run (\<lambda>c d. None) start [Connect 1 ''x'', Connect 2 ''x''] = Some s \<and>
       sessions s 2 = Some (''x'', True) \<and>
       step (\<lambda>c d. None) s (Disconnect 2 ConnectionError) = Some s' \<and>
       sessions s' 2 = Some (''x'', False) \<and> conns s' ''x'' = Some [1])"
proof -
  let ?c = "Map.empty(''x'' \<mapsto> [1 :: nat])"
  let ?ok = "\<lambda>(c :: websocket) (d :: string). None :: exn option"
  let ?bad = "\<lambda>(c :: websocket) (d :: string). Some OtherException"
  have j: "join ?c ''x'' 2 = Map.empty(''x'' \<mapsto> [1, 2])"
    by (simp add: join_def)
  have r1: "relay_loop ?ok (join ?c ''x'' 2) ''x'' 2 [Text ''a'', Raises WebSocketDisconnect] =
              ([(1, ''a'', None)], Some WebSocketDisconnect)"
    by (simp add: join_same)
  have r2: "relay_loop ?bad (join ?c ''x'' 2) ''x'' 2 [Text ''a''] =
              ([(1, ''a'', Some OtherException)], Some OtherException)"
    by (simp add: join_same)
  from leave_runs_on_every_exit [of "[Text ''a'', Raises WebSocketDisconnect]" ?ok ?c "''x''" 2] r1
  have a: "websocket_endpoint ?ok ?c 2 ''x'' None [Text ''a'', Raises WebSocketDisconnect] =
             (Map.empty(''x'' \<mapsto> [1]), [(1, ''a'', None)], Returned)"
    by (simp add: join_def caught_def)
  from leave_runs_on_every_exit [of "[Text ''a'']" ?bad ?c "''x''" 2] r2
  have b: "websocket_endpoint ?bad ?c 2 ''x'' None [Text ''a''] =
             (Map.empty(''x'' \<mapsto> [1]), [(1, ''a'', Some OtherException)], Propagated OtherException)"
    by (simp add: join_def caught_def)
  let ?evs = "[Connect 1 ''x'', Connect 2 ''x'']"
  obtain s where s: "run ?ok start ?evs = Some s"
    by (simp add: start_def join_def)
  have live: "sessions s 2 = Some (''x'', True)" and cx: "conns s ''x'' = Some [1, 2]"
    using s by (auto simp add: start_def join_def)
  from leave_runs_on_every_exit [of "[]" ?ok Map.empty "''x''" 2 ?evs s ConnectionError] s live
  obtain s' where s': "step ?ok s (Disconnect 2 ConnectionError) = Some s'"
    and f: "sessions s' 2 = Some (''x'', False)"
    by blast
  have "conns s' ''x'' = Some [1]"
    using s' live cx by (auto simp add: close_session_def cleanup_def leave_def)
  with s live s' f
  have c: "\<exists>s s'. run ?ok start ?evs = Some s \<and> sessions s 2 = Some (''x'', True) \<and>
       step ?ok s (Disconnect 2 ConnectionError) = Some s' \<and>
       sessions s' 2 = Some (''x'', False) \<and> conns s' ''x'' = Some [1]"
    by blast
  show ?thesis using a b c by simp
qed

section \<open>The claims about the pages\<close>

text \<open>
  Claim C9. The room identifier that \<^verbatim>\<open>generate_room\<close> makes is the textual form of
  the 128-bit value drawn: 36 characters, the 32 hexadecimal digits of the value in groups
  of 8, 4, 4, 4 and 12 with a hyphen between two groups; the share link and the view link
  end with that identifier, after the base address and \<^verbatim>\<open>/share/\<close> or
  \<^verbatim>\<open>/view/\<close>. That the value is drawn at random is outside the model: it is the
  argument \<open>u\<close>.
\<close>

theorem room_identifier_format:
  "length (uuid_str u) = 36 \<and>
   (\<exists>g1 g2 g3 g4 g5.
      uuid_str u = g1 @ ''-'' @ g2 @ ''-'' @ g3 @ ''-'' @ g4 @ ''-'' @ g5 \<and>
      length g1 = 8 \<and> length g2 = 4 \<and> length g3 = 4 \<and> length g4 = 4 \<and> length g5 = 12 \<and>
      g1 @ g2 @ g3 @ g4 @ g5 = hex32 u \<and>
      (\<forall>c \<in> set (g1 @ g2 @ g3 @ g4 @ g5). c \<in> set ''0123456789abcdef'')) \<and>
   map_of (context_dict (fst (generate_room request u connections))) ''share_link'' =
     Some (Str (url_scheme request @ ''://'' @
                (case headers request ''host'' of None \<Rightarrow> ''localhost:8088'' | Some h \<Rightarrow> h) @
                ''/share/'' @ uuid_str u)) \<and>
   map_of (context_dict (fst (generate_room request u connections))) ''view_link'' =
     Some (Str (url_scheme request @ ''://'' @
                (case headers request ''host'' of None \<Rightarrow> ''localhost:8088'' | Some h \<Rightarrow> h) @
                ''/view/'' @ uuid_str u))"
proof (intro conjI)
  show "length (uuid_str u) = 36"
    by (simp add: uuid_str_def Let_def length_hex32)
next
  let ?h = "hex32 u"
  let ?g1 = "take 8 ?h" and ?g2 = "take 4 (drop 8 ?h)" and ?g3 = "take 4 (drop 12 ?h)"
  let ?g4 = "take 4 (drop 16 ?h)" and ?g5 = "drop 20 ?h"
  have e: "uuid_str u = ?g1 @ ''-'' @ ?g2 @ ''-'' @ ?g3 @ ''-'' @ ?g4 @ ''-'' @ ?g5"
    by (simp add: uuid_str_def Let_def)
  have l: "length ?g1 = 8" "length ?g2 = 4" "length ?g3 = 4" "length ?g4 = 4" "length ?g5 = 12"
    by (simp_all add: length_hex32)
  have a4: "?g4 @ ?g5 = drop 16 ?h"
    using append_take_drop_id [of 4 "drop 16 ?h"] by simp
  have a3: "?g3 @ drop 16 ?h = drop 12 ?h"
    using append_take_drop_id [of 4 "drop 12 ?h"] by simp
  have a2: "?g2 @ drop 12 ?h = drop 8 ?h"
    using append_take_drop_id [of 4 "drop 8 ?h"] by simp
  have a: "?g1 @ ?g2 @ ?g3 @ ?g4 @ ?g5 = ?h"
    by (simp only: a4 a3 a2 append_take_drop_id)
  have m: "\<forall>c \<in> set (?g1 @ ?g2 @ ?g3 @ ?g4 @ ?g5). c \<in> set ''0123456789abcdef''"
    unfolding a using set_hex32 by blast
  show "\<exists>g1 g2 g3 g4 g5.
      uuid_str u = g1 @ ''-'' @ g2 @ ''-'' @ g3 @ ''-'' @ g4 @ ''-'' @ g5 \<and>
      length g1 = 8 \<and> length g2 = 4 \<and> length g3 = 4 \<and> length g4 = 4 \<and> length g5 = 12 \<and>
      g1 @ g2 @ g3 @ g4 @ g5 = hex32 u \<and>
      (\<forall>c \<in> set (g1 @ g2 @ g3 @ g4 @ g5). c \<in> set ''0123456789abcdef'')"
    using e l a m by blast
next
  show "map_of (context_dict (fst (generate_room request u connections))) ''share_link'' =
     Some (Str (url_scheme request @ ''://'' @
                (case headers request ''host'' of None \<Rightarrow> ''localhost:8088'' | Some h \<Rightarrow> h) @
                ''/share/'' @ uuid_str u))"
    by (simp add: generate_room_def Let_def)
next
  show "map_of (context_dict (fst (generate_room request u connections))) ''view_link'' =
     Some (Str (url_scheme request @ ''://'' @
                (case headers request ''host'' of None \<Rightarrow> ''localhost:8088'' | Some h \<Rightarrow> h) @
                ''/view/'' @ uuid_str u))"
    by (simp add: generate_room_def Let_def)
qed

theorem room_identifier_format_witness:
  "uuid_str 0x0123456789abcdef0123456789abcdef = ''01234567-89ab-cdef-0123-456789abcdef'' \<and>
   length (uuid_str 0x0123456789abcdef0123456789abcdef) = 36 \<and>
   map_of (context_dict (fst (generate_room \<lparr>url_scheme = ''http'', headers = Map.empty\<rparr>
             0x0123456789abcdef0123456789abcdef Map.empty))) ''share_link'' =
     Some (Str ''http://localhost:8088/share/01234567-89ab-cdef-0123-456789abcdef'') \<and>
   map_of (context_dict (fst (generate_room
             \<lparr>url_scheme = ''https'', headers = Map.empty(''host'' \<mapsto> ''example.org'')\<rparr>
             0x0123456789abcdef0123456789abcdef Map.empty))) ''view_link'' =
     Some (Str ''https://example.org/view/01234567-89ab-cdef-0123-456789abcdef'')"
proof -
  let ?u = "0x0123456789abcdef0123456789abcdef :: 128 word"
  have s: "uuid_str ?u = ''01234567-89ab-cdef-0123-456789abcdef''"
    by (simp add: uuid_str_def hex32_example)
  note t1 = room_identifier_format [of ?u "\<lparr>url_scheme = ''http'', headers = Map.empty\<rparr>" Map.empty]
  note t2 = room_identifier_format
    [of ?u "\<lparr>url_scheme = ''https'', headers = Map.empty(''host'' \<mapsto> ''example.org'')\<rparr>" Map.empty]
  from t1 have l: "length (uuid_str ?u) = 36" by (rule conjunct1)
  from t1 have a: "map_of (context_dict (fst (generate_room \<lparr>url_scheme = ''http'', headers = Map.empty\<rparr>
             ?u Map.empty))) ''share_link'' =
     Some (Str ''http://localhost:8088/share/01234567-89ab-cdef-0123-456789abcdef'')"
    by (simp add: s)
  from t2 have b: "map_of (context_dict (fst (generate_room
             \<lparr>url_scheme = ''https'', headers = Map.empty(''host'' \<mapsto> ''example.org'')\<rparr>
             ?u Map.empty))) ''view_link'' =
     Some (Str ''https://example.org/view/01234567-89ab-cdef-0123-456789abcdef'')"
    by (simp add: s)
  from s l a b show ?thesis by (intro conjI)
qed

text \<open>
  Claim C10. The three page handlers return the registry they were given, and their
  responses are the same whatever the registry holds.
\<close>

theorem pages_leave_registry_alone:
  "snd (generate_room request u connections) = connections \<and>
   snd (share_screen request room_id connections) = connections \<and>
   snd (view_screen request room_id connections) = connections \<and>
   fst (generate_room request u connections) = fst (generate_room request u connections') \<and>
   fst (share_screen request room_id connections) = fst (share_screen request room_id connections') \<and>
   fst (view_screen request room_id connections) = fst (view_screen request room_id connections')"
  by (simp add: generate_room_def share_screen_def view_screen_def Let_def)

end
